theory Spec2Isabelle
  imports Complex_Main "HOL-Library.Sublist"
begin

unbundle bit_operations_syntax

section \<open>Garbage Cleaner Pro: the cleaner engine and the scheduler\<close>

text \<open>
  A shallow embedding of \<^verbatim>\<open>src/garbage_cleaner_pro.py\<close>: the rule and configuration
  records, \<^verbatim>\<open>CleanerEngine\<close> (scan, act, pause and stop), and \<^verbatim>\<open>SimpleScheduler\<close>.
  The Python standard library (\<^verbatim>\<open>pathlib\<close>, \<^verbatim>\<open>shutil\<close>, \<^verbatim>\<open>os\<close>, \<^verbatim>\<open>str\<close>, \<^verbatim>\<open>int\<close>)
  is not part of the repository; the calls the engine makes are modelled below on a small
  file system, after the library's documented behaviour on POSIX.
\<close>

subsection \<open>Python strings\<close>










text \<open>\<^verbatim>\<open>s.split(sep)\<close>, every piece.\<close>

fun split_all :: "char \<Rightarrow> string \<Rightarrow> string list" where
  "split_all sep [] = [[]]"
| "split_all sep (c # cs) =
     (if c = sep then [] # split_all sep cs
      else (case split_all sep cs of
              [] \<Rightarrow> [[c]]
            | w # ws \<Rightarrow> (c # w) # ws))"


subsection \<open>Paths\<close>

text \<open>
  A \<^verbatim>\<open>Path\<close> is absolute here and is the list of its components below the root.
\<close>

type_synonym path = "string list"

datatype py_error =
    FileNotFoundError | PermissionError | FileExistsError | NotADirectoryError
  | IsADirectoryError | OSError | ShutilError | ValueError

text \<open>The components of a path written as text: empty pieces and \<^verbatim>\<open>.\<close> are dropped.\<close>

definition parse_parts :: "string \<Rightarrow> string list" where
  "parse_parts s = filter (\<lambda>w. w \<noteq> [] \<and> w \<noteq> ''.'') (split_all CHR ''/'' s)"

text \<open>\<^verbatim>\<open>base / s\<close> for a string \<open>s\<close>: an absolute \<open>s\<close> replaces the base.\<close>

definition joinpath :: "path \<Rightarrow> string \<Rightarrow> path" where
  "joinpath base s =
     (if s \<noteq> [] \<and> hd s = CHR ''/'' then parse_parts s else base @ parse_parts s)"

definition path_name :: "path \<Rightarrow> string" where
  "path_name p = (if p = [] then [] else last p)"

definition path_parent :: "path \<Rightarrow> path" where
  "path_parent p = butlast p"

text \<open>
  \<^verbatim>\<open>PurePath.suffix\<close>: the name from its last dot on, when that dot is neither the first
  nor the last character of the name.
\<close>

definition path_suffix :: "path \<Rightarrow> string" where
  "path_suffix p =
     (let nm = path_name p;
          ext = rev (takeWhile (\<lambda>c. c \<noteq> CHR ''.'') (rev nm))
      in if CHR ''.'' \<in> set nm \<and> ext \<noteq> [] \<and> Suc (length ext) < length nm
         then CHR ''.'' # ext else [])"

definition with_suffix :: "path \<Rightarrow> string \<Rightarrow> py_error + path" where
  "with_suffix p sfx =
     (if CHR ''/'' \<in> set sfx then Inl ValueError
      else if (sfx \<noteq> [] \<and> hd sfx \<noteq> CHR ''.'') \<or> sfx = ''.'' then Inl ValueError
      else if path_name p = [] then Inl ValueError
      else
        let nm = path_name p;
            old = path_suffix p;
            nm' = (if old = [] then nm @ sfx else take (length nm - length old) nm @ sfx)
        in Inr (butlast p @ [nm']))"

definition relative_to :: "path \<Rightarrow> path \<Rightarrow> py_error + path" where
  "relative_to p base =
     (if prefix base p then Inr (drop (length base) p) else Inl ValueError)"

subsection \<open>The file system\<close>

text \<open>
  What the process finds at a path: nothing, something it may not touch
  (\<^verbatim>\<open>PermissionError\<close>), something that fails otherwise (another \<^verbatim>\<open>OSError\<close>), or
  a file or directory. A node holds what \<^verbatim>\<open>stat\<close> reports, \<open>is_link\<close> says that the
  path itself is a symbolic link (to that file or directory). Timestamps are the reals that
  the floats of \<^verbatim>\<open>st_mtime\<close> and \<^verbatim>\<open>time.time()\<close> stand for.
\<close>

datatype file_kind = Regular | Directory

record node =
  kind :: file_kind
  is_link :: bool
  st_mode :: nat
  st_size :: int
  st_mtime :: real

datatype entry = Absent | Denied | Faulty | Present node

type_synonym filesystem = "path \<Rightarrow> entry"

definition stat :: "filesystem \<Rightarrow> path \<Rightarrow> py_error + node" where
  "stat fs p =
     (case fs p of
        Absent \<Rightarrow> Inl FileNotFoundError
      | Denied \<Rightarrow> Inl PermissionError
      | Faulty \<Rightarrow> Inl OSError
      | Present n \<Rightarrow> Inr n)"

text \<open>
  \<^verbatim>\<open>Path.exists\<close>, \<^verbatim>\<open>Path.is_dir\<close> and \<^verbatim>\<open>Path.is_symlink\<close> answer \<^verbatim>\<open>False\<close> for a
  missing path and let every other error through.
\<close>

definition path_exists :: "filesystem \<Rightarrow> path \<Rightarrow> py_error + bool" where
  "path_exists fs p =
     (case stat fs p of
        Inr n \<Rightarrow> Inr True
      | Inl e \<Rightarrow> if e = FileNotFoundError then Inr False else Inl e)"

definition is_dir :: "filesystem \<Rightarrow> path \<Rightarrow> py_error + bool" where
  "is_dir fs p =
     (case stat fs p of
        Inr n \<Rightarrow> Inr (kind n = Directory)
      | Inl e \<Rightarrow> if e = FileNotFoundError then Inr False else Inl e)"

definition is_symlink :: "filesystem \<Rightarrow> path \<Rightarrow> py_error + bool" where
  "is_symlink fs p =
     (case stat fs p of
        Inr n \<Rightarrow> Inr (is_link n)
      | Inl e \<Rightarrow> if e = FileNotFoundError then Inr False else Inl e)"

text \<open>\<^verbatim>\<open>os.path.isdir\<close> and \<^verbatim>\<open>os.path.exists\<close> answer \<^verbatim>\<open>False\<close> on every error.\<close>

definition os_path_isdir :: "filesystem \<Rightarrow> path \<Rightarrow> bool" where
  "os_path_isdir fs p = (case fs p of Present n \<Rightarrow> kind n = Directory | _ \<Rightarrow> False)"

definition os_path_exists :: "filesystem \<Rightarrow> path \<Rightarrow> bool" where
  "os_path_exists fs p = (case fs p of Present n \<Rightarrow> True | _ \<Rightarrow> False)"

text \<open>
  \<^verbatim>\<open>p.chmod(p.stat().st_mode | stat.S_IWRITE)\<close>, with \<^verbatim>\<open>S_IWRITE = 0o200\<close>.
\<close>

definition chmod_writable :: "filesystem \<Rightarrow> path \<Rightarrow> py_error + filesystem" where
  "chmod_writable fs p =
     (case stat fs p of
        Inl e \<Rightarrow> Inl e
      | Inr n \<Rightarrow> Inr (fs(p := Present (n\<lparr>st_mode := st_mode n OR 128\<rparr>))))"

text \<open>\<^verbatim>\<open>p.unlink(missing_ok=True)\<close>.\<close>

definition unlink_missing_ok :: "filesystem \<Rightarrow> path \<Rightarrow> py_error + filesystem" where
  "unlink_missing_ok fs p =
     (case fs p of
        Absent \<Rightarrow> Inr fs
      | Denied \<Rightarrow> Inl PermissionError
      | Faulty \<Rightarrow> Inl OSError
      | Present n \<Rightarrow>
          if kind n = Directory \<and> \<not> is_link n then Inl IsADirectoryError
          else Inr (fs(p := Absent)))"

text \<open>
  \<^verbatim>\<open>p.mkdir(parents=True, exist_ok=True)\<close>: every missing directory on the way down to
  \<open>p\<close> is created, with the node \<open>fresh\<close> the system gives a new directory; the directories
  made before a failure stay.
\<close>

fun mkdirs :: "node \<Rightarrow> path list \<Rightarrow> filesystem \<Rightarrow> filesystem \<times> py_error option" where
  "mkdirs fresh [] fs = (fs, None)"
| "mkdirs fresh (d # ds) fs =
     (case fs d of
        Absent \<Rightarrow> mkdirs fresh ds (fs(d := Present fresh))
      | Denied \<Rightarrow> (fs, Some PermissionError)
      | Faulty \<Rightarrow> (fs, Some OSError)
      | Present n \<Rightarrow>
          if kind n = Directory then mkdirs fresh ds fs else (fs, Some FileExistsError))"

definition mkdir_parents :: "node \<Rightarrow> path \<Rightarrow> filesystem \<Rightarrow> filesystem \<times> py_error option" where
  "mkdir_parents fresh p fs = mkdirs fresh (tl (prefixes p)) fs"

text \<open>
  \<^verbatim>\<open>os.rename(src, dst)\<close>: the entry, with everything below it, leaves \<open>src\<close> and
  replaces what was at \<open>dst\<close>.
\<close>

definition rename :: "filesystem \<Rightarrow> path \<Rightarrow> path \<Rightarrow> py_error + filesystem" where
  "rename fs src dst =
     (case fs src of
        Absent \<Rightarrow> Inl FileNotFoundError
      | Denied \<Rightarrow> Inl PermissionError
      | Faulty \<Rightarrow> Inl OSError
      | Present n \<Rightarrow>
          if src = dst then Inr fs
          else if dst = [] \<or> \<not> os_path_isdir fs (path_parent dst) then Inl FileNotFoundError
          else if fs dst = Denied then Inl PermissionError
          else if fs dst = Faulty then Inl OSError
          else if os_path_isdir fs dst then Inl IsADirectoryError
          else if kind n = Directory \<and> prefix src dst then Inl OSError
          else Inr (\<lambda>q.
                 if prefix dst q then
                   (if kind n = Directory \<or> q = dst then fs (src @ drop (length dst) q)
                    else Absent)
                 else if prefix src q then Absent
                 else fs q))"

text \<open>
  \<^verbatim>\<open>shutil.move(src, dst)\<close>: into \<open>dst\<close> when that is a directory, else onto \<open>dst\<close>.
\<close>

definition move :: "filesystem \<Rightarrow> path \<Rightarrow> path \<Rightarrow> py_error + filesystem" where
  "move fs src dst =
     (if os_path_isdir fs dst then
        (let real_dst = dst @ [path_name src]
         in if os_path_exists fs real_dst then Inl ShutilError
            else rename fs src real_dst)
      else rename fs src dst)"

subsection \<open>Rules and configuration\<close>

datatype action_type = Quarantine | Delete | Recycle

record path_rule =
  name :: string
  path :: string
  patterns :: "string list"
  min_age_days :: int
  remove_empty_dirs :: bool
  action :: action_type
  enabled :: bool

record app_config =
  dry_run :: bool
  quarantine_enabled :: bool
  follow_symlinks :: bool
  max_delete_per_rule :: int
  max_total_delete :: int
  log_age_off_days :: int
  hard_recycle_only :: bool

record scan_result =
  rule :: path_rule
  files :: "path list"
  total_size :: int

text \<open>
  What the engine takes from outside the repository: how a rule's path text resolves
  (\<^verbatim>\<open>expanduser\<close>, \<^verbatim>\<open>expandvars\<close>, \<^verbatim>\<open>resolve\<close>), what \<^verbatim>\<open>base.rglob(pattern)\<close> yields
  and in which order, up to its normal or exceptional end (the order is the file
  system's), the home directory, the node of a new directory, the optional
  \<^verbatim>\<open>send2trash\<close>, and for \<^verbatim>\<open>cleanup_empty_dirs\<close> the directories \<^verbatim>\<open>os.walk\<close> yields
  bottom-up and the listing of a directory.
\<close>

record platform =
  resolve :: "string \<Rightarrow> path"
  rglob :: "path \<Rightarrow> string \<Rightarrow> path list"
  home :: path
  fresh_dir :: node
  send2trash :: "(filesystem \<Rightarrow> path \<Rightarrow> py_error + filesystem) option"
  walk_bottom_up :: "path \<Rightarrow> path list"
  iterdir :: "filesystem \<Rightarrow> path \<Rightarrow> py_error + path list"

definition resolve_base :: "platform \<Rightarrow> path_rule \<Rightarrow> path" where
  "resolve_base env r = resolve env (path r)"

definition QUARANTINE_DIR :: "platform \<Rightarrow> path" where
  "QUARANTINE_DIR env = joinpath (home env) ''.garbage_cleaner_quarantine''"

definition ensure_quarantine :: "platform \<Rightarrow> filesystem \<Rightarrow> filesystem \<times> py_error option" where
  "ensure_quarantine env fs = mkdir_parents (fresh_dir env) (QUARANTINE_DIR env) fs"

subsection \<open>Stop and pause\<close>

text \<open>
  The two \<^verbatim>\<open>threading.Event\<close> objects of \<^verbatim>\<open>CleanerEngine\<close>. The worker thread only
  reads them; the Tk thread sets and clears them through \<open>stop\<close>, \<open>toggle_pause\<close> and
  \<^verbatim>\<open>_stop.clear()\<close>. A worker is given \<open>obs\<close>, the events as it finds them at its
  successive looks: \<open>obs n\<close> is what the \<open>n\<close>-th look sees.
\<close>

record signals =
  stop_event :: bool
  pause_event :: bool

definition init_signals :: signals where
  "init_signals = \<lparr>stop_event = False, pause_event = False\<rparr>"

definition stop :: "signals \<Rightarrow> signals" where
  "stop s = (s\<lparr>stop_event := True\<rparr>)\<lparr>pause_event := False\<rparr>"

definition toggle_pause :: "bool \<Rightarrow> signals \<Rightarrow> signals" where
  "toggle_pause v s = (if v then s\<lparr>pause_event := True\<rparr> else s\<lparr>pause_event := False\<rparr>)"

text \<open>
  \<^verbatim>\<open>while self._pause.is_set() and not self._stop.is_set(): time.sleep(0.1)\<close>. The
  result is the number of the next look; \<open>None\<close> is a loop that never ends.
\<close>

partial_function (option) wait_if_paused :: "(nat \<Rightarrow> signals) \<Rightarrow> nat \<Rightarrow> nat option" where
  "wait_if_paused obs n =
     (if pause_event (obs n) \<and> \<not> stop_event (obs n) then wait_if_paused obs (Suc n)
      else Some (Suc n))"

subsection \<open>Scan\<close>

definition older_than :: "filesystem \<Rightarrow> path \<Rightarrow> real \<Rightarrow> py_error + bool" where
  "older_than fs p cutoff =
     (case stat fs p of
        Inr st \<Rightarrow> Inr (st_mtime st < cutoff)
      | Inl e \<Rightarrow> if e = FileNotFoundError \<or> e = PermissionError then Inr False else Inl e)"

text \<open>
  The body of the inner \<^verbatim>\<open>try\<close> of \<open>enumerate_rule\<close> for one candidate, up to the
  test of the cap: \<open>Inr None\<close> is a \<^verbatim>\<open>continue\<close>, \<open>Inr (Some _)\<close> the result and the
  seen set after the append, \<open>Inl e\<close> an exception leaving the body.
\<close>

definition scan_entry ::
  "app_config \<Rightarrow> filesystem \<Rightarrow> path_rule \<Rightarrow> real \<Rightarrow> path \<Rightarrow> scan_result \<Rightarrow> path set
     \<Rightarrow> py_error + (scan_result \<times> path set) option" where
  "scan_entry c fs r cutoff p res seen =
     (if p \<in> seen then Inr None
      else case is_dir fs p of
        Inl e \<Rightarrow> Inl e
      | Inr True \<Rightarrow> Inr None
      | Inr False \<Rightarrow>
         (case (if \<not> follow_symlinks c then is_symlink fs p else Inr False) of
            Inl e \<Rightarrow> Inl e
          | Inr True \<Rightarrow> Inr None
          | Inr False \<Rightarrow>
             (case (if min_age_days r > 0 then older_than fs p cutoff else Inr True) of
                Inl e \<Rightarrow> Inl e
              | Inr False \<Rightarrow> Inr None
              | Inr True \<Rightarrow>
                  Inr (Some
                    (res\<lparr>files := files res @ [p],
                         total_size := total_size res +
                           (case stat fs p of Inr st \<Rightarrow> st_size st | Inl e \<Rightarrow> 0)\<rparr>,
                     insert p seen)))))"

text \<open>
  How the loop over one pattern's candidates ends: by \<^verbatim>\<open>return res\<close> on the stop
  signal, or by going on to the next pattern (the candidates are exhausted, the cap's
  \<^verbatim>\<open>break\<close>, or an exception caught by the outer \<^verbatim>\<open>except Exception: continue\<close>).
\<close>

datatype loop_exit = Returned scan_result | NextPattern scan_result "path set" nat

fun scan_pattern ::
  "(nat \<Rightarrow> signals) \<Rightarrow> app_config \<Rightarrow> filesystem \<Rightarrow> path_rule \<Rightarrow> real \<Rightarrow> path list
     \<Rightarrow> scan_result \<Rightarrow> path set \<Rightarrow> nat \<Rightarrow> loop_exit option" where
  "scan_pattern obs c fs r cutoff [] res seen n = Some (NextPattern res seen n)"
| "scan_pattern obs c fs r cutoff (p # ps) res seen n =
     (if stop_event (obs n) then Some (Returned res)
      else case wait_if_paused obs (Suc n) of
        None \<Rightarrow> None
      | Some n' \<Rightarrow>
         (case scan_entry c fs r cutoff p res seen of
            Inl e \<Rightarrow>
              if e = PermissionError \<or> e = FileNotFoundError
              then scan_pattern obs c fs r cutoff ps res seen n'
              else Some (NextPattern res seen n')
          | Inr None \<Rightarrow> scan_pattern obs c fs r cutoff ps res seen n'
          | Inr (Some (res', seen')) \<Rightarrow>
              if int (length (files res')) \<ge> max_delete_per_rule c
              then Some (NextPattern res' seen' n')
              else scan_pattern obs c fs r cutoff ps res' seen' n'))"

fun scan_patterns ::
  "(nat \<Rightarrow> signals) \<Rightarrow> app_config \<Rightarrow> platform \<Rightarrow> filesystem \<Rightarrow> path_rule \<Rightarrow> real \<Rightarrow> path
     \<Rightarrow> string list \<Rightarrow> scan_result \<Rightarrow> path set \<Rightarrow> nat \<Rightarrow> scan_result option" where
  "scan_patterns obs c env fs r cutoff base [] res seen n = Some res"
| "scan_patterns obs c env fs r cutoff base (pat # pats) res seen n =
     (case scan_pattern obs c fs r cutoff (rglob env base pat) res seen n of
        None \<Rightarrow> None
      | Some (Returned res') \<Rightarrow> Some res'
      | Some (NextPattern res' seen' n') \<Rightarrow>
          scan_patterns obs c env fs r cutoff base pats res' seen' n')"

text \<open>
  \<open>enumerate_rule\<close> at the worker's look \<open>n\<close>, with \<open>now\<close> the reading of
  \<^verbatim>\<open>time.time()\<close>. \<open>Some (Inl e)\<close> is an exception that leaves the function, \<open>None\<close> a
  scan that never returns.
\<close>

definition enumerate_rule ::
  "(nat \<Rightarrow> signals) \<Rightarrow> nat \<Rightarrow> app_config \<Rightarrow> platform \<Rightarrow> filesystem \<Rightarrow> real \<Rightarrow> path_rule
     \<Rightarrow> (py_error + scan_result) option" where
  "enumerate_rule obs n c env fs now r =
     (let res = \<lparr>rule = r, files = [], total_size = 0\<rparr> in
      if \<not> enabled r then Some (Inr res)
      else
        let base = resolve_base env r in
        case path_exists fs base of
          Inl e \<Rightarrow> Some (Inl e)
        | Inr False \<Rightarrow> Some (Inr res)
        | Inr True \<Rightarrow>
            map_option Inr
              (scan_patterns obs c env fs r (now - real_of_int (min_age_days r) * 86400) base
                 (patterns r) res {} n))"

subsection \<open>Act\<close>

definition resolve_action :: "app_config \<Rightarrow> path_rule \<Rightarrow> action_type" where
  "resolve_action c r = (if hard_recycle_only c then Recycle else action r)"

text \<open>The line \<^verbatim>\<open>log(f"Failed: {p} \<rightarrow> {e}")\<close>.\<close>

datatype log_line = Failed path py_error

text \<open>
  The result is the returned flag, the file system the call leaves (with what was done
  before an exception) and the log.
\<close>

definition recycle_or_quarantine_or_delete ::
  "app_config \<Rightarrow> platform \<Rightarrow> path \<Rightarrow> path_rule \<Rightarrow> filesystem \<Rightarrow> log_line list
     \<Rightarrow> bool \<times> filesystem \<times> log_line list" where
  "recycle_or_quarantine_or_delete c env p r fs lg =
     (if dry_run c then (True, fs, lg)
      else
        let act = resolve_action c r in
        case (if act = Recycle then send2trash env else None) of
          Some trash \<Rightarrow>
            (case trash fs p of
               Inr fs' \<Rightarrow> (True, fs', lg)
             | Inl e \<Rightarrow> (False, fs, lg @ [Failed p e]))
        | None \<Rightarrow>
            if act = Delete \<or> \<not> quarantine_enabled c then
              (let fs1 = (case chmod_writable fs p of Inr f \<Rightarrow> f | Inl e \<Rightarrow> fs) in
               case unlink_missing_ok fs1 p of
                 Inr fs2 \<Rightarrow> (True, fs2, lg)
               | Inl e \<Rightarrow> (False, fs1, lg @ [Failed p e]))
            else
              (case ensure_quarantine env fs of
                 (fs1, Some e) \<Rightarrow> (False, fs1, lg @ [Failed p e])
               | (fs1, None) \<Rightarrow>
                  (let qroot = joinpath (QUARANTINE_DIR env) (name r) in
                   case mkdir_parents (fresh_dir env) qroot fs1 of
                     (fs2, Some e) \<Rightarrow> (False, fs2, lg @ [Failed p e])
                   | (fs2, None) \<Rightarrow>
                      (let rel = (case relative_to p (resolve_base env r) of
                                    Inr q \<Rightarrow> q
                                  | Inl e \<Rightarrow> parse_parts (path_name p)) in
                       case with_suffix (qroot @ rel) (path_suffix p) of
                         Inl e \<Rightarrow> (False, fs2, lg @ [Failed p e])
                       | Inr dest \<Rightarrow>
                          (case mkdir_parents (fresh_dir env) (path_parent dest) fs2 of
                             (fs3, Some e) \<Rightarrow> (False, fs3, lg @ [Failed p e])
                           | (fs3, None) \<Rightarrow>
                              (case move fs3 p dest of
                                 Inl e \<Rightarrow> (False, fs3, lg @ [Failed p e])
                               | Inr fs4 \<Rightarrow> (True, fs4, lg)))))))"

text \<open>
  The loop of \<open>act_on_files\<close>, with the counters \<^verbatim>\<open>deleted_files\<close> and
  \<^verbatim>\<open>freed_bytes\<close>.
\<close>

fun act_loop ::
  "(nat \<Rightarrow> signals) \<Rightarrow> app_config \<Rightarrow> platform \<Rightarrow> path_rule \<Rightarrow> path list \<Rightarrow> int \<Rightarrow> int
     \<Rightarrow> filesystem \<Rightarrow> log_line list \<Rightarrow> nat \<Rightarrow> ((int \<times> int) \<times> filesystem \<times> log_line list) option" where
  "act_loop obs c env r [] deleted_files freed_bytes fs lg n =
     Some ((deleted_files, freed_bytes), fs, lg)"
| "act_loop obs c env r (p # ps) deleted_files freed_bytes fs lg n =
     (if stop_event (obs n) then Some ((deleted_files, freed_bytes), fs, lg)
      else case wait_if_paused obs (Suc n) of
        None \<Rightarrow> None
      | Some n' \<Rightarrow>
          if deleted_files \<ge> max_total_delete c then Some ((deleted_files, freed_bytes), fs, lg)
          else
            let size = (case stat fs p of Inr st \<Rightarrow> st_size st | Inl e \<Rightarrow> 0) in
            case recycle_or_quarantine_or_delete c env p r fs lg of
              (ok, fs', lg') \<Rightarrow>
                if ok then act_loop obs c env r ps (deleted_files + 1) (freed_bytes + size) fs' lg' n'
                else act_loop obs c env r ps deleted_files freed_bytes fs' lg' n')"

definition act_on_files ::
  "(nat \<Rightarrow> signals) \<Rightarrow> nat \<Rightarrow> app_config \<Rightarrow> platform \<Rightarrow> scan_result \<Rightarrow> filesystem
     \<Rightarrow> log_line list \<Rightarrow> ((int \<times> int) \<times> filesystem \<times> log_line list) option" where
  "act_on_files obs n c env res fs lg = act_loop obs c env (rule res) (files res) 0 0 fs lg n"

text \<open>\<^verbatim>\<open>p.rmdir()\<close>, called on a directory found empty.\<close>

definition rmdir :: "filesystem \<Rightarrow> path \<Rightarrow> py_error + filesystem" where
  "rmdir fs p =
     (case fs p of
        Absent \<Rightarrow> Inl FileNotFoundError
      | Denied \<Rightarrow> Inl PermissionError
      | Faulty \<Rightarrow> Inl OSError
      | Present n \<Rightarrow>
          if kind n = Directory \<and> \<not> is_link n then Inr (fs(p := Absent))
          else Inl NotADirectoryError)"

fun cleanup_loop ::
  "(nat \<Rightarrow> signals) \<Rightarrow> platform \<Rightarrow> path list \<Rightarrow> filesystem \<Rightarrow> nat \<Rightarrow> filesystem option" where
  "cleanup_loop obs env [] fs n = Some fs"
| "cleanup_loop obs env (d # ds) fs n =
     (if stop_event (obs n) then Some fs
      else case wait_if_paused obs (Suc n) of
        None \<Rightarrow> None
      | Some n' \<Rightarrow>
          cleanup_loop obs env ds
            (case iterdir env fs d of
               Inl e \<Rightarrow> fs
             | Inr children \<Rightarrow>
                 if children = [] then (case rmdir fs d of Inr fs' \<Rightarrow> fs' | Inl e \<Rightarrow> fs)
                 else fs)
            n')"

definition cleanup_empty_dirs ::
  "(nat \<Rightarrow> signals) \<Rightarrow> nat \<Rightarrow> app_config \<Rightarrow> platform \<Rightarrow> path \<Rightarrow> filesystem \<Rightarrow> filesystem option" where
  "cleanup_empty_dirs obs n c env base fs =
     (if dry_run c then Some fs else cleanup_loop obs env (walk_bottom_up env base) fs n)"

subsection \<open>The scheduler\<close>

text \<open>
  A schedule entry is a dictionary of strings, here the list of its items; \<open>dict_get\<close>
  is \<^verbatim>\<open>t.get(key, default)\<close>.
\<close>

type_synonym task = "(string \<times> string) list"






text \<open>What the scheduler and the form ask of the host application.\<close>

datatype app_call =
    ScanAsync | CleanAsync | PurgePipCacheAsync | PurgeNpmCacheAsync
  | LogToUi string | Toast string





text \<open>
  The schedule document of \<^verbatim>\<open>ConfigStore\<close> (\<open>None\<close>: no file yet); writing it fails
  with an \<^verbatim>\<open>OSError\<close> when the file cannot be written.
\<close>

record config_store =
  schedule_doc :: "task list option"
  writable :: bool

definition load_schedules :: "config_store \<Rightarrow> task list" where
  "load_schedules st = (case schedule_doc st of None \<Rightarrow> [] | Some d \<Rightarrow> d)"

definition save_schedules :: "config_store \<Rightarrow> task list \<Rightarrow> py_error + config_store" where
  "save_schedules st items =
     (if writable st then Inr (st\<lparr>schedule_doc := Some items\<rparr>) else Inl OSError)"

text \<open>
  The scheduler's list, the store, and the toasts and log lines shown so far. The
  redrawing of the schedule table is not modelled.
\<close>

record app_state =
  tasks :: "task list"
  store :: config_store
  shown :: "app_call list"

text \<open>\<^verbatim>\<open>SimpleScheduler.add\<close>; \<open>Some e\<close> is an exception leaving it.\<close>

definition add :: "string \<Rightarrow> string \<Rightarrow> string \<Rightarrow> app_state \<Rightarrow> py_error option \<times> app_state" where
  "add nm act time_str s =
     (let s1 = s\<lparr>tasks := tasks s @ [[(''name'', nm), (''action'', act), (''time'', time_str)]]\<rparr>
      in case save_schedules (store s1) (tasks s1) of
           Inl e \<Rightarrow> (Some e, s1)
         | Inr st \<Rightarrow> (None, s1\<lparr>store := st\<rparr>))"


subsection \<open>Defaults and sample data\<close>

text \<open>The defaults of the dataclasses \<^verbatim>\<open>AppConfig\<close> and \<^verbatim>\<open>PathRule\<close>.\<close>

definition AppConfig_default :: app_config where
  "AppConfig_default =
     \<lparr>dry_run = True, quarantine_enabled = True, follow_symlinks = False,
      max_delete_per_rule = 50000, max_total_delete = 200000, log_age_off_days = 30,
      hard_recycle_only = False\<rparr>"

definition PathRule_default :: "string \<Rightarrow> string \<Rightarrow> path_rule" where
  "PathRule_default nm pth =
     \<lparr>name = nm, path = pth, patterns = [''*''], min_age_days = 0, remove_empty_dirs = True,
      action = Quarantine, enabled = True\<rparr>"

text \<open>The size \<open>act_on_files\<close> reads for a file: 0 when \<^verbatim>\<open>stat\<close> fails.\<close>

definition size_of :: "filesystem \<Rightarrow> path \<Rightarrow> int" where
  "size_of fs p = (case stat fs p of Inr st \<Rightarrow> st_size st | Inl e \<Rightarrow> 0)"

text \<open>A run that nobody stops or pauses, and one paused from the start and stopped
  before the worker's third look.\<close>

definition quiet :: "nat \<Rightarrow> signals" where
  "quiet = (\<lambda>n. init_signals)"

definition paused_then_stopped :: "nat \<Rightarrow> signals" where
  "paused_then_stopped j =
     (if j < 2 then toggle_pause True init_signals else stop (toggle_pause True init_signals))"

definition file_node :: "real \<Rightarrow> int \<Rightarrow> node" where
  "file_node mtime sz =
     \<lparr>kind = Regular, is_link = False, st_mode = 420, st_size = sz, st_mtime = mtime\<rparr>"

definition dir_node :: node where
  "dir_node = \<lparr>kind = Directory, is_link = False, st_mode = 493, st_size = 4096, st_mtime = 0\<rparr>"

text \<open>
  A platform without \<^verbatim>\<open>send2trash\<close>, whose path texts are absolute and resolve to
  themselves, with the home directory \<^verbatim>\<open>/home/u\<close> and a given listing for \<^verbatim>\<open>rglob\<close>.
\<close>

definition demo_platform :: "(path \<Rightarrow> string \<Rightarrow> path list) \<Rightarrow> platform" where
  "demo_platform listing =
     \<lparr>resolve = parse_parts, rglob = listing, home = [''home'', ''u''], fresh_dir = dir_node,
      send2trash = None, walk_bottom_up = (\<lambda>base. [base]), iterdir = (\<lambda>fs d. Inr [])\<rparr>"

text \<open>Ten files in \<^verbatim>\<open>/data\<close>, of 100 bytes each: five match \<^verbatim>\<open>*.log\<close>, five \<^verbatim>\<open>*.tmp\<close>.\<close>

definition logs_and_tmps :: "path \<Rightarrow> string \<Rightarrow> path list" where
  "logs_and_tmps base pat =
     (if pat = ''*.log''
      then map (\<lambda>nm. base @ [nm]) [''a.log'', ''b.log'', ''c.log'', ''d.log'', ''e.log'']
      else if pat = ''*.tmp''
      then map (\<lambda>nm. base @ [nm]) [''a.tmp'', ''b.tmp'', ''c.tmp'', ''d.tmp'', ''e.tmp'']
      else [])"

definition ten_files :: filesystem where
  "ten_files = (\<lambda>p.
     if p = [''data''] then Present dir_node
     else if p \<in> set (logs_and_tmps [''data''] ''*.log'' @ logs_and_tmps [''data''] ''*.tmp'')
     then Present (file_node 0 100)
     else Absent)"

definition logs_rule :: path_rule where
  "logs_rule = (PathRule_default ''Logs'' ''/data'')\<lparr>patterns := [''*.log'', ''*.tmp'']\<rparr>"

text \<open>A scan result holding two of the ten files.\<close>

definition two_logs :: scan_result where
  "two_logs = \<lparr>rule = logs_rule, files = [[''data'', ''a.log''], [''data'', ''b.log'']], total_size = 200\<rparr>"

text \<open>
  \<open>retime f fs\<close> is \<open>fs\<close> with other modification times: \<open>f p t\<close> for the
  file at \<open>p\<close> whose time was \<open>t\<close>.
\<close>

definition retime :: "(path \<Rightarrow> real \<Rightarrow> real) \<Rightarrow> filesystem \<Rightarrow> filesystem" where
  "retime f fs p =
     (case fs p of Present nd \<Rightarrow> Present (nd\<lparr>st_mtime := f p (st_mtime nd)\<rparr>) | e \<Rightarrow> e)"

text \<open>
  The rule \<^verbatim>\<open>Temp\<close> on \<^verbatim>\<open>/tmp/x\<close> with the pattern \<^verbatim>\<open>*.tmp\<close>, a minimal age of one
  day and the action \<^verbatim>\<open>delete\<close>; and two files there, \<^verbatim>\<open>a.tmp\<close> modified at second
  1000 and \<^verbatim>\<open>b.tmp\<close> at second 200000.
\<close>

definition temp_rule :: path_rule where
  "temp_rule = (PathRule_default ''Temp'' ''/tmp/x'')
     \<lparr>patterns := [''*.tmp''], min_age_days := 1, action := Delete\<rparr>"

definition temp_listing :: "path \<Rightarrow> string \<Rightarrow> path list" where
  "temp_listing base pat = (if pat = ''*.tmp'' then [base @ [''a.tmp''], base @ [''b.tmp'']] else [])"

definition temp_files :: filesystem where
  "temp_files = (\<lambda>p.
     if p = [''tmp''] \<or> p = [''tmp'', ''x''] then Present dir_node
     else if p = [''tmp'', ''x'', ''a.tmp''] then Present (file_node 1000 10)
     else if p = [''tmp'', ''x'', ''b.tmp''] then Present (file_node 200000 20)
     else Absent)"











section \<open>Properties\<close>

subsection \<open>Waiting while paused\<close>

lemma wait_if_paused_exits:
  "n \<le> m \<Longrightarrow> \<not> pause_event (obs m) \<or> stop_event (obs m) \<Longrightarrow>
   \<exists>k. wait_if_paused obs n = Some k \<and> k \<le> Suc m"
proof (induction "m - n" arbitrary: n)
  case 0
  then have "n = m" by simp
  with 0 show ?case by (subst wait_if_paused.simps) auto
next
  case (Suc d)
  then have step: "d = m - Suc n" and le: "Suc n \<le> m" by simp_all
  show ?case
  proof (cases "pause_event (obs n) \<and> \<not> stop_event (obs n)")
    case True
    from Suc.hyps(1) [OF step le Suc.prems(2)] obtain k
      where "wait_if_paused obs (Suc n) = Some k" "k \<le> Suc m" by blast
    with True show ?thesis by (subst wait_if_paused.simps) simp
  next
    case False
    with le show ?thesis by (subst wait_if_paused.simps) auto
  qed
qed

lemma wait_if_paused_clear:
  "\<not> pause_event (obs n) \<or> stop_event (obs n) \<Longrightarrow> wait_if_paused obs n = Some (Suc n)"
  by (subst wait_if_paused.simps) auto

lemma wait_if_paused_stopped:
  assumes "\<forall>j\<ge>m. stop_event (obs j)"
  shows "\<exists>k. wait_if_paused obs n = Some k"
proof -
  have "n \<le> max n m" "\<not> pause_event (obs (max n m)) \<or> stop_event (obs (max n m))"
    using assms by simp_all
  then show ?thesis using wait_if_paused_exits [of n "max n m" obs] by blast
qed

lemma quiet_flags: "stop_event (quiet n) = False" "pause_event (quiet n) = False"
  by (simp_all add: quiet_def init_signals_def)

lemma quiet_wait: "wait_if_paused quiet n = Some (Suc n)"
  by (simp add: wait_if_paused_clear quiet_flags)

lemma scan_pattern_returns:
  assumes "\<forall>j\<ge>m. stop_event (obs j)"
  shows "scan_pattern obs c fs r cutoff ps res seen n \<noteq> None"
proof (induction ps arbitrary: res seen n)
  case Nil
  show ?case by simp
next
  case (Cons p ps)
  obtain k where k: "wait_if_paused obs (Suc n) = Some k"
    using wait_if_paused_stopped [OF assms] by blast
  show ?case using Cons.IH k
    by (auto split: sum.splits option.splits)
qed

lemma scan_patterns_returns:
  assumes "\<forall>j\<ge>m. stop_event (obs j)"
  shows "scan_patterns obs c env fs r cutoff base pats res seen n \<noteq> None"
proof (induction pats arbitrary: res seen n)
  case Nil
  show ?case by simp
next
  case (Cons pat pats)
  show ?case using Cons.IH scan_pattern_returns [OF assms]
    by (auto split: option.splits loop_exit.splits)
qed

lemma act_loop_returns:
  assumes "\<forall>j\<ge>m. stop_event (obs j)"
  shows "act_loop obs c env r ps d f fs lg n \<noteq> None"
proof (induction ps arbitrary: d f fs lg n)
  case Nil
  show ?case by simp
next
  case (Cons p ps)
  obtain k where k: "wait_if_paused obs (Suc n) = Some k"
    using wait_if_paused_stopped [OF assms] by blast
  show ?case using Cons.IH k
    by (auto split: prod.splits simp: Let_def)
qed

text \<open>
  Claim C10. \<open>stop\<close> sets the stop event and clears the pause event. A worker waiting
  in \<open>wait_if_paused\<close> since its look \<open>n\<close> leaves the loop at the latest after the first
  look \<open>m\<close> that finds the stop event set. And once the stop event stays set, a scan and an
  act both return, whatever the pause event does.
\<close>

theorem stop_releases_paused_worker:
  "stop_event (stop s) \<and> \<not> pause_event (stop s) \<and>
   (n \<le> m \<and> stop_event (obs m) \<longrightarrow> (\<exists>k. wait_if_paused obs n = Some k \<and> k \<le> Suc m)) \<and>
   ((\<forall>j\<ge>m. stop_event (obs j)) \<longrightarrow>
      enumerate_rule obs n c env fs now r \<noteq> None \<and> act_on_files obs n c env res fs lg \<noteq> None)"
proof (intro conjI impI)
  show "stop_event (stop s)" by (simp add: stop_def)
  show "\<not> pause_event (stop s)" by (simp add: stop_def)
next
  assume "n \<le> m \<and> stop_event (obs m)"
  then show "\<exists>k. wait_if_paused obs n = Some k \<and> k \<le> Suc m"
    using wait_if_paused_exits [of n m obs] by blast
next
  assume a: "\<forall>j\<ge>m. stop_event (obs j)"
  show "enumerate_rule obs n c env fs now r \<noteq> None"
    using scan_patterns_returns [OF a]
    by (auto simp: enumerate_rule_def Let_def split: sum.splits bool.splits)
  show "act_on_files obs n c env res fs lg \<noteq> None"
    using act_loop_returns [OF a] by (simp add: act_on_files_def)
qed

theorem stop_releases_paused_worker_witness:
  "pause_event (paused_then_stopped 0) \<and> \<not> stop_event (paused_then_stopped 0) \<and>
   (\<exists>k. wait_if_paused paused_then_stopped 0 = Some k \<and> k \<le> 3) \<and>
   enumerate_rule paused_then_stopped 0 AppConfig_default (demo_platform logs_and_tmps)
     ten_files 0 logs_rule \<noteq> None \<and>
   act_on_files paused_then_stopped 0 AppConfig_default (demo_platform logs_and_tmps)
     \<lparr>rule = logs_rule, files = [[''data'', ''a.log'']], total_size = 100\<rparr> ten_files [] \<noteq> None"
  using stop_releases_paused_worker [of "toggle_pause True init_signals" 0 2 paused_then_stopped
      AppConfig_default "demo_platform logs_and_tmps" ten_files 0 logs_rule
      "\<lparr>rule = logs_rule, files = [[''data'', ''a.log'']], total_size = 100\<rparr>" "[]"]
  by (simp add: paused_then_stopped_def stop_def toggle_pause_def init_signals_def numeral_3_eq_3)

subsection \<open>Disabled rules and missing base paths\<close>

text \<open>
  Claim C7. For a rule that is disabled, or whose resolved base path does not exist,
  \<open>enumerate_rule\<close> returns the empty result (no files, total size 0) and raises
  nothing. It is a function of the file system and returns no new one: the source calls
  nothing that writes.
\<close>

theorem enumerate_rule_disabled_or_missing:
  assumes "\<not> enabled r \<or> fs (resolve_base env r) = Absent"
  shows "enumerate_rule obs n c env fs now r = Some (Inr \<lparr>rule = r, files = [], total_size = 0\<rparr>)"
  using assms by (auto simp: enumerate_rule_def path_exists_def stat_def Let_def)

theorem enumerate_rule_disabled_or_missing_witness:
  "enumerate_rule quiet 0 AppConfig_default (demo_platform logs_and_tmps) ten_files 0
     (logs_rule\<lparr>enabled := False\<rparr>)
     = Some (Inr \<lparr>rule = logs_rule\<lparr>enabled := False\<rparr>, files = [], total_size = 0\<rparr>) \<and>
   enabled (logs_rule\<lparr>path := ''/nowhere''\<rparr>) \<and>
   enumerate_rule quiet 0 AppConfig_default (demo_platform logs_and_tmps) ten_files 0
     (logs_rule\<lparr>path := ''/nowhere''\<rparr>)
     = Some (Inr \<lparr>rule = logs_rule\<lparr>path := ''/nowhere''\<rparr>, files = [], total_size = 0\<rparr>)"
proof -
  have "parse_parts ''/nowhere'' = [''nowhere'']" by (simp add: parse_parts_def)
  then have "ten_files (resolve_base (demo_platform logs_and_tmps) (logs_rule\<lparr>path := ''/nowhere''\<rparr>)) = Absent"
    by (simp add: resolve_base_def demo_platform_def ten_files_def logs_and_tmps_def)
  then show ?thesis
    using enumerate_rule_disabled_or_missing [of "logs_rule\<lparr>enabled := False\<rparr>" ten_files
        "demo_platform logs_and_tmps" quiet 0 AppConfig_default 0]
      enumerate_rule_disabled_or_missing [of "logs_rule\<lparr>path := ''/nowhere''\<rparr>" ten_files
        "demo_platform logs_and_tmps" quiet 0 AppConfig_default 0]
    by (simp add: logs_rule_def PathRule_default_def)
qed

subsection \<open>Dry run\<close>

lemma dry_run_one:
  "dry_run c \<Longrightarrow> recycle_or_quarantine_or_delete c env p r fs lg = (True, fs, lg)"
  by (simp add: recycle_or_quarantine_or_delete_def)

lemma act_loop_dry_run:
  assumes "dry_run c"
  shows "act_loop obs c env r ps d f fs lg n = Some (cnt, fs', lg') \<Longrightarrow>
         fs' = fs \<and> lg' = lg \<and>
         (\<exists>k\<le>length ps. cnt = (d + int k, f + sum_list (map (size_of fs) (take k ps))))"
proof (induction ps arbitrary: d f n)
  case Nil
  then show ?case by simp
next
  case (Cons p ps)
  show ?case
  proof (cases "stop_event (obs n)")
    case True
    with Cons.prems show ?thesis by auto
  next
    case False
    then obtain n' where w: "wait_if_paused obs (Suc n) = Some n'"
      using Cons.prems by (auto split: option.splits)
    show ?thesis
    proof (cases "d \<ge> max_total_delete c")
      case True
      with Cons.prems False w show ?thesis by auto
    next
      case nf: False
      from Cons.prems False w nf assms
      have "act_loop obs c env r ps (d + 1) (f + size_of fs p) fs lg n' = Some (cnt, fs', lg')"
        by (simp add: dry_run_one size_of_def)
      from Cons.IH [OF this] obtain k where k: "k \<le> length ps"
        "cnt = (d + 1 + int k, f + size_of fs p + sum_list (map (size_of fs) (take k ps)))"
        and fr: "fs' = fs" "lg' = lg" by blast
      have "Suc k \<le> length (p # ps)" using k by simp
      moreover have "cnt = (d + int (Suc k), f + sum_list (map (size_of fs) (take (Suc k) (p # ps))))"
        using k by simp
      ultimately show ?thesis using fr by blast
    qed
  qed
qed

lemma act_loop_dry_run_quiet:
  assumes "dry_run c" and "\<forall>j. \<not> stop_event (obs j) \<and> \<not> pause_event (obs j)"
  shows "act_loop obs c env r ps d f fs lg n =
         Some ((d + int (length (take (nat (max_total_delete c - d)) ps)),
                f + sum_list (map (size_of fs) (take (nat (max_total_delete c - d)) ps))), fs, lg)"
proof (induction ps arbitrary: d f n)
  case Nil
  show ?case by simp
next
  case (Cons p ps)
  have w: "wait_if_paused obs (Suc n) = Some (Suc (Suc n))"
    using assms(2) by (simp add: wait_if_paused_clear)
  show ?case
  proof (cases "d \<ge> max_total_delete c")
    case True
    then show ?thesis using assms w by simp
  next
    case False
    then obtain j where j: "nat (max_total_delete c - d) = Suc j" "nat (max_total_delete c - (d + 1)) = j"
      by (cases "nat (max_total_delete c - d)") (auto simp: nat_eq_iff)
    show ?thesis using False assms w j Cons.IH [of "d + 1" "f + size_of fs p" "Suc (Suc n)"]
      by (simp add: dry_run_one size_of_def)
  qed
qed

lemma ten_files_log: "ten_files [''data'', ''a.log''] = Present (file_node 0 100)"
   "ten_files [''data'', ''b.log''] = Present (file_node 0 100)"
  by (simp_all add: ten_files_def logs_and_tmps_def)

text \<open>
  Claim C1. With \<open>dry_run\<close> set, every file handed to
  \<open>recycle_or_quarantine_or_delete\<close> counts as a success and the file system and the log
  stay as they were. So whatever \<open>act_on_files\<close> returns, the file system is the one it
  started from, and the counts are those of a run in which each of the \<open>k\<close> files it
  walked succeeded: \<open>k\<close> files and the sum of their sizes. When nobody stops or pauses
  the run, \<open>k\<close> is the length of the list, capped by \<open>max_total_delete\<close>.
  \<open>cleanup_empty_dirs\<close> returns at once, with the file system unchanged.
\<close>

theorem dry_run_changes_nothing:
  assumes "dry_run c"
  shows "recycle_or_quarantine_or_delete c env p r fs lg = (True, fs, lg) \<and>
    (\<forall>cnt fs' lg'. act_on_files obs n c env res fs lg = Some (cnt, fs', lg') \<longrightarrow>
       fs' = fs \<and> lg' = lg \<and>
       (\<exists>k\<le>length (files res).
          cnt = (int k, sum_list (map (size_of fs) (take k (files res)))))) \<and>
    ((\<forall>j. \<not> stop_event (obs j) \<and> \<not> pause_event (obs j)) \<longrightarrow>
       act_on_files obs n c env res fs lg =
         Some ((int (length (take (nat (max_total_delete c)) (files res))),
                sum_list (map (size_of fs) (take (nat (max_total_delete c)) (files res)))), fs, lg)) \<and>
    cleanup_empty_dirs obs n c env base fs = Some fs"
proof (intro conjI allI impI)
  show "recycle_or_quarantine_or_delete c env p r fs lg = (True, fs, lg)"
    using assms by (rule dry_run_one)
next
  fix cnt fs' lg'
  assume a: "act_on_files obs n c env res fs lg = Some (cnt, fs', lg')"
  from act_loop_dry_run [OF assms, of obs env "rule res" "files res" 0 0 fs lg n cnt fs' lg'] a
  show "fs' = fs" "lg' = lg"
    "\<exists>k\<le>length (files res). cnt = (int k, sum_list (map (size_of fs) (take k (files res))))"
    by (simp_all add: act_on_files_def)
next
  assume "\<forall>j. \<not> stop_event (obs j) \<and> \<not> pause_event (obs j)"
  from act_loop_dry_run_quiet [OF assms this, of env "rule res" "files res" 0 0 fs lg n]
  show "act_on_files obs n c env res fs lg =
         Some ((int (length (take (nat (max_total_delete c)) (files res))),
                sum_list (map (size_of fs) (take (nat (max_total_delete c)) (files res)))), fs, lg)"
    by (simp add: act_on_files_def)
next
  show "cleanup_empty_dirs obs n c env base fs = Some fs"
    using assms by (simp add: cleanup_empty_dirs_def)
qed

theorem dry_run_changes_nothing_witness:
  "dry_run AppConfig_default \<and>
   recycle_or_quarantine_or_delete AppConfig_default (demo_platform logs_and_tmps)
      [''data'', ''a.log''] logs_rule ten_files [] = (True, ten_files, []) \<and>
   act_on_files quiet 0 AppConfig_default (demo_platform logs_and_tmps) two_logs ten_files []
      = Some ((2, 200), ten_files, []) \<and>
   cleanup_empty_dirs quiet 0 AppConfig_default (demo_platform logs_and_tmps) [''data''] ten_files
      = Some ten_files"
  using dry_run_changes_nothing [of AppConfig_default "demo_platform logs_and_tmps"
      "[''data'', ''a.log'']" logs_rule ten_files "[]" quiet 0 two_logs "[''data'']"]
  by (simp add: AppConfig_default_def quiet_flags two_logs_def size_of_def stat_def ten_files_log
        file_node_def)

subsection \<open>The cap on the files of a rule\<close>

lemma scan_entry_appends:
  "scan_entry c fs r cutoff p res seen = Inr (Some (res', seen')) \<Longrightarrow>
   files res' = files res @ [p] \<and> (0 < min_age_days r \<longrightarrow> older_than fs p cutoff = Inr True)"
  by (auto simp: scan_entry_def split: if_splits sum.splits bool.splits)

text \<open>
  What the loops do guarantee: a pattern's loop stops at the cap or adds one file to a
  result that had reached it, so a scan returns at most \<open>max_delete_per_rule - 1\<close> files
  plus one for each pattern; with a single pattern and a cap of at least one, the cap
  holds, and ten files matching one pattern give three.
\<close>

lemma scan_pattern_bound:
  "scan_pattern obs c fs r cutoff ps res seen n = Some ex \<Longrightarrow>
   int (length (files (case ex of Returned res' \<Rightarrow> res' | NextPattern res' s k \<Rightarrow> res')))
     \<le> max (int (length (files res)) + 1) (max_delete_per_rule c)"
proof (induction ps arbitrary: res seen n)
  case Nil
  then show ?case by auto
next
  case (Cons p ps)
  show ?case
  proof (cases "stop_event (obs n)")
    case True
    with Cons.prems show ?thesis by auto
  next
    case False
    then obtain n' where w: "wait_if_paused obs (Suc n) = Some n'"
      using Cons.prems by (auto split: option.splits)
    show ?thesis
    proof (cases "scan_entry c fs r cutoff p res seen")
      case (Inl e)
      with Cons.prems False w Cons.IH [of res seen n'] show ?thesis
        by (auto split: if_splits)
    next
      case (Inr o')
      show ?thesis
      proof (cases o')
        case None
        with Inr Cons.prems False w Cons.IH [of res seen n'] show ?thesis by auto
      next
        case (Some pr)
        obtain res' seen' where pr: "pr = (res', seen')" by (cases pr)
        from scan_entry_appends [of c fs r cutoff p res seen res' seen'] Inr Some pr
        have ap: "files res' = files res @ [p]" by auto
        show ?thesis
        proof (cases "max_delete_per_rule c \<le> int (length (files res'))")
          case True
          with Inr Some pr Cons.prems False w ap show ?thesis by auto
        next
          case nf: False
          with Inr Some pr Cons.prems False w
          have "scan_pattern obs c fs r cutoff ps res' seen' n' = Some ex" by simp
          from Cons.IH [OF this] nf ap show ?thesis by auto
        qed
      qed
    qed
  qed
qed

lemma scan_patterns_bound:
  "scan_patterns obs c env fs r cutoff base pats res seen n = Some out \<Longrightarrow>
   int (length (files out))
     \<le> max (int (length (files res))) (max_delete_per_rule c - 1) + int (length pats)"
proof (induction pats arbitrary: res seen n)
  case Nil
  then show ?case by simp
next
  case (Cons pat pats)
  from Cons.prems obtain ex
    where ex: "scan_pattern obs c fs r cutoff (rglob env base pat) res seen n = Some ex"
    by (auto split: option.splits)
  note b = scan_pattern_bound [OF ex]
  show ?case
  proof (cases ex)
    case (Returned res')
    with ex Cons.prems b show ?thesis by auto
  next
    case (NextPattern res' seen' n')
    with ex Cons.prems have "scan_patterns obs c env fs r cutoff base pats res' seen' n' = Some out"
      by simp
    from Cons.IH [OF this] b NextPattern show ?thesis by auto
  qed
qed

lemma enumerate_rule_bound:
  assumes "enumerate_rule obs n c env fs now r = Some (Inr res)"
  shows "int (length (files res)) \<le> max 0 (max_delete_per_rule c - 1) + int (length (patterns r))"
proof (cases "enabled r \<and> path_exists fs (resolve_base env r) = Inr True")
  case True
  with assms have "scan_patterns obs c env fs r (now - real_of_int (min_age_days r) * 86400)
      (resolve_base env r) (patterns r) \<lparr>rule = r, files = [], total_size = 0\<rparr> {} n = Some res"
    by (auto simp: enumerate_rule_def Let_def)
  from scan_patterns_bound [OF this] show ?thesis by simp
next
  case False
  with assms have "files res = []"
    by (auto simp: enumerate_rule_def Let_def split: if_splits sum.splits bool.splits)
  then show ?thesis by simp
qed

lemma enumerate_rule_one_pattern_cap:
  assumes "enumerate_rule obs n c env fs now r = Some (Inr res)"
    and "length (patterns r) = 1" and "1 \<le> max_delete_per_rule c"
  shows "int (length (files res)) \<le> max_delete_per_rule c"
  using enumerate_rule_bound [OF assms(1)] assms(2,3) by simp

lemma enumerate_rule_one_pattern_example:
  "enumerate_rule quiet 0 (AppConfig_default\<lparr>max_delete_per_rule := 3\<rparr>)
     (demo_platform (\<lambda>base pat. logs_and_tmps base ''*.log'' @ logs_and_tmps base ''*.tmp''))
     ten_files 0 (PathRule_default ''All'' ''/data'')
   = Some (Inr \<lparr>rule = PathRule_default ''All'' ''/data'',
       files = [[''data'', ''a.log''], [''data'', ''b.log''], [''data'', ''c.log'']],
       total_size = 300\<rparr>)"
proof -
  have "parse_parts ''/data'' = [''data'']" by (simp add: parse_parts_def)
  then show ?thesis
  by (simp add: enumerate_rule_def resolve_base_def demo_platform_def path_exists_def stat_def
       ten_files_def logs_and_tmps_def PathRule_default_def AppConfig_default_def quiet_wait
       scan_entry_def is_dir_def is_symlink_def file_node_def dir_node_def quiet_flags Let_def)
qed

text \<open>
  Claim C3. The cap does not hold for a rule with several patterns: the \<^verbatim>\<open>break\<close> on
  \<^verbatim>\<open>len(res.files) >= max_delete_per_rule\<close> leaves the loop over one pattern's
  candidates only, and the loop over the patterns goes on, so every later pattern adds one
  more file. With \<open>max_delete_per_rule = 3\<close>, the patterns \<^verbatim>\<open>*.log\<close> and \<^verbatim>\<open>*.tmp\<close>
  and ten matching files, \<open>enumerate_rule\<close> returns four files.
\<close>

theorem enumerate_rule_passes_cap:
  "enumerate_rule quiet 0 (AppConfig_default\<lparr>max_delete_per_rule := 3\<rparr>)
     (demo_platform logs_and_tmps) ten_files 0 logs_rule
   = Some (Inr \<lparr>rule = logs_rule,
       files = [[''data'', ''a.log''], [''data'', ''b.log''], [''data'', ''c.log''], [''data'', ''a.tmp'']],
       total_size = 400\<rparr>)"
proof -
  have "parse_parts ''/data'' = [''data'']" by (simp add: parse_parts_def)
  then show ?thesis
  by (simp add: enumerate_rule_def resolve_base_def demo_platform_def path_exists_def stat_def
       ten_files_def logs_and_tmps_def logs_rule_def PathRule_default_def AppConfig_default_def quiet_wait
       scan_entry_def is_dir_def is_symlink_def file_node_def dir_node_def quiet_flags Let_def)
qed

subsection \<open>The age filter\<close>

lemma scan_pattern_old:
  assumes "0 < min_age_days r"
  shows "scan_pattern obs c fs r cutoff ps res seen n = Some ex \<Longrightarrow>
         \<forall>q\<in>set (files res). older_than fs q cutoff = Inr True \<Longrightarrow>
         \<forall>q\<in>set (files (case ex of Returned res' \<Rightarrow> res' | NextPattern res' s k \<Rightarrow> res')).
            older_than fs q cutoff = Inr True"
proof (induction ps arbitrary: res seen n)
  case Nil
  then show ?case by auto
next
  case (Cons p ps)
  show ?case
  proof (cases "stop_event (obs n)")
    case True
    with Cons.prems show ?thesis by auto
  next
    case False
    then obtain n' where w: "wait_if_paused obs (Suc n) = Some n'"
      using Cons.prems(1) by (auto split: option.splits)
    show ?thesis
    proof (cases "scan_entry c fs r cutoff p res seen")
      case (Inl e)
      with Cons.prems False w Cons.IH [of res seen n'] show ?thesis
        by (auto split: if_splits)
    next
      case (Inr o')
      show ?thesis
      proof (cases o')
        case None
        with Inr Cons.prems False w Cons.IH [of res seen n'] show ?thesis by auto
      next
        case (Some pr)
        obtain res' seen' where pr: "pr = (res', seen')" by (cases pr)
        from scan_entry_appends [of c fs r cutoff p res seen res' seen'] Inr Some pr assms
        have ap: "files res' = files res @ [p]" "older_than fs p cutoff = Inr True" by auto
        then have old': "\<forall>q\<in>set (files res'). older_than fs q cutoff = Inr True"
          using Cons.prems(2) by auto
        show ?thesis
          using Inr Some pr Cons.prems(1) False w old' Cons.IH [of res' seen' n', OF _ old']
          by (auto split: if_splits)
      qed
    qed
  qed
qed

lemma scan_patterns_old:
  assumes "0 < min_age_days r"
  shows "scan_patterns obs c env fs r cutoff base pats res seen n = Some out \<Longrightarrow>
         \<forall>q\<in>set (files res). older_than fs q cutoff = Inr True \<Longrightarrow>
         \<forall>q\<in>set (files out). older_than fs q cutoff = Inr True"
proof (induction pats arbitrary: res seen n)
  case Nil
  then show ?case by simp
next
  case (Cons pat pats)
  from Cons.prems(1) obtain ex
    where ex: "scan_pattern obs c fs r cutoff (rglob env base pat) res seen n = Some ex"
    by (auto split: option.splits)
  from scan_pattern_old [OF assms ex Cons.prems(2)]
  have old: "\<forall>q\<in>set (files (case ex of Returned res' \<Rightarrow> res' | NextPattern res' s k \<Rightarrow> res')).
            older_than fs q cutoff = Inr True" .
  show ?case
  proof (cases ex)
    case (Returned res')
    with ex Cons.prems(1) old show ?thesis by auto
  next
    case (NextPattern res' seen' n')
    with ex Cons.prems(1) old Cons.IH [of res' seen' n'] show ?thesis by auto
  qed
qed

lemma older_than_True:
  "older_than fs p cutoff = Inr True \<longleftrightarrow> (\<exists>st. stat fs p = Inr st \<and> st_mtime st < cutoff)"
  by (auto simp: older_than_def split: sum.splits)

lemma stat_retime:
  "stat (retime f fs) p = map_sum id (\<lambda>nd. nd\<lparr>st_mtime := f p (st_mtime nd)\<rparr>) (stat fs p)"
  by (simp add: stat_def retime_def split: entry.splits)

lemma is_dir_retime: "is_dir (retime f fs) p = is_dir fs p"
  by (cases "stat fs p") (simp_all add: is_dir_def stat_retime)

lemma is_symlink_retime: "is_symlink (retime f fs) p = is_symlink fs p"
  by (cases "stat fs p") (simp_all add: is_symlink_def stat_retime)

lemma size_of_retime: "size_of (retime f fs) p = size_of fs p"
  by (cases "stat fs p") (simp_all add: size_of_def stat_retime)

lemma scan_entry_retime:
  "\<not> 0 < min_age_days r \<Longrightarrow>
   scan_entry c (retime f fs) r cutoff' p res seen = scan_entry c fs r cutoff p res seen"
  unfolding scan_entry_def size_of_def [symmetric] is_dir_retime is_symlink_retime size_of_retime
  by simp

lemma scan_pattern_retime:
  "\<not> 0 < min_age_days r \<Longrightarrow>
   scan_pattern obs c (retime f fs) r cutoff' ps res seen n =
   scan_pattern obs c fs r cutoff ps res seen n"
  by (induction ps arbitrary: res seen n)
     (simp_all add: scan_entry_retime [of r c f fs cutoff' _ _ _ cutoff]
        cong: option.case_cong sum.case_cong prod.case_cong if_cong)

lemma scan_patterns_retime:
  "\<not> 0 < min_age_days r \<Longrightarrow>
   scan_patterns obs c env (retime f fs) r cutoff' base pats res seen n =
   scan_patterns obs c env fs r cutoff base pats res seen n"
  by (induction pats arbitrary: res seen n)
     (simp_all add: scan_pattern_retime [of r obs c f fs cutoff' _ _ _ _ cutoff]
        cong: option.case_cong loop_exit.case_cong)

lemma path_exists_retime: "path_exists (retime f fs) p = path_exists fs p"
  by (cases "stat fs p") (simp_all add: path_exists_def stat_retime)

lemma temp_parse: "parse_parts ''/tmp/x'' = [''tmp'', ''x'']"
  by (simp add: parse_parts_def)

lemma temp_scan:
  "enumerate_rule quiet 0 AppConfig_default (demo_platform temp_listing) temp_files 173800 temp_rule
     = Some (Inr \<lparr>rule = temp_rule, files = [[''tmp'', ''x'', ''a.tmp'']], total_size = 10\<rparr>)"
  by (simp add: enumerate_rule_def resolve_base_def demo_platform_def path_exists_def stat_def
       temp_files_def temp_listing_def temp_rule_def PathRule_default_def AppConfig_default_def
       quiet_wait scan_entry_def is_dir_def is_symlink_def older_than_def file_node_def dir_node_def
       quiet_flags Let_def temp_parse)

text \<open>
  Claim C8. For a rule with \<open>min_age_days > 0\<close>, a file whose modification time is
  later than \<open>now - min_age_days * 86400\<close> is in no result that \<open>enumerate_rule\<close>
  returns. For a rule with \<open>min_age_days = 0\<close> no age filter is applied: the result
  is the same whatever the modification times of the files and the reading of the clock.
\<close>

theorem age_filter:
  "(0 < min_age_days r \<and> enumerate_rule obs n c env fs now r = Some (Inr res) \<and>
    stat fs p = Inr st \<and> now - real_of_int (min_age_days r) * 86400 < st_mtime st
      \<longrightarrow> p \<notin> set (files res)) \<and>
   (min_age_days r = 0 \<longrightarrow>
      enumerate_rule obs n c env (retime f fs) now' r = enumerate_rule obs n c env fs now r)"
proof (intro conjI impI)
  assume a: "0 < min_age_days r \<and> enumerate_rule obs n c env fs now r = Some (Inr res) \<and>
    stat fs p = Inr st \<and> now - real_of_int (min_age_days r) * 86400 < st_mtime st"
  let ?cut = "now - real_of_int (min_age_days r) * 86400"
  have "\<forall>q\<in>set (files res). older_than fs q ?cut = Inr True"
  proof (cases "enabled r \<and> path_exists fs (resolve_base env r) = Inr True")
    case True
    with a have "scan_patterns obs c env fs r ?cut (resolve_base env r) (patterns r)
        \<lparr>rule = r, files = [], total_size = 0\<rparr> {} n = Some res"
      by (auto simp: enumerate_rule_def Let_def)
    from scan_patterns_old [OF _ this] a show ?thesis by simp
  next
    case False
    with a have "files res = []"
      by (auto simp: enumerate_rule_def Let_def split: if_splits sum.splits bool.splits)
    then show ?thesis by simp
  qed
  then show "p \<notin> set (files res)" using a by (auto simp: older_than_True)
next
  assume "min_age_days r = 0"
  then have z: "\<not> 0 < min_age_days r" by simp
  show "enumerate_rule obs n c env (retime f fs) now' r = enumerate_rule obs n c env fs now r"
    unfolding enumerate_rule_def Let_def path_exists_retime
      scan_patterns_retime [OF z, of obs c env f fs
        "now' - real_of_int (min_age_days r) * 86400" "resolve_base env r" "patterns r" _ _ n
        "now - real_of_int (min_age_days r) * 86400"]
    by (rule refl)
qed

theorem age_filter_witness:
  "0 < min_age_days temp_rule \<and>
   stat temp_files [''tmp'', ''x'', ''b.tmp''] = Inr (file_node 200000 20) \<and>
   173800 - real_of_int (min_age_days temp_rule) * 86400 < st_mtime (file_node 200000 20) \<and>
   [''tmp'', ''x'', ''b.tmp''] \<notin> set [[''tmp'', ''x'', ''a.tmp'']] \<and>
   enumerate_rule quiet 0 AppConfig_default (demo_platform logs_and_tmps)
       (retime (\<lambda>p t. t + 5) ten_files) 86400 logs_rule
     = enumerate_rule quiet 0 AppConfig_default (demo_platform logs_and_tmps) ten_files 0 logs_rule"
  using age_filter [of temp_rule quiet 0 AppConfig_default "demo_platform temp_listing" temp_files
      173800 "\<lparr>rule = temp_rule, files = [[''tmp'', ''x'', ''a.tmp'']], total_size = 10\<rparr>"
      "[''tmp'', ''x'', ''b.tmp'']" "file_node 200000 20"]
    age_filter [of logs_rule quiet 0 AppConfig_default "demo_platform logs_and_tmps" ten_files
      0 _ _ _ "\<lambda>p t. t + 5" 86400]
    temp_scan
  by (simp add: temp_rule_def logs_rule_def PathRule_default_def stat_def temp_files_def file_node_def)

subsection \<open>Scanning twice\<close>

lemma scan_entry_same_verdict:
  assumes "0 < min_age_days r \<longrightarrow> older_than fs p cut1 = older_than fs p cut2"
  shows "scan_entry c fs r cut1 p res seen = scan_entry c fs r cut2 p res seen"
proof (cases "0 < min_age_days r")
  case True
  with assms have e: "older_than fs p cut1 = older_than fs p cut2" by simp
  show ?thesis unfolding scan_entry_def e by (rule refl)
next
  case False
  then have f: "(0 < min_age_days r) = False" by simp
  show ?thesis unfolding scan_entry_def f if_False by (rule refl)
qed

lemma scan_pattern_same_verdict:
  "\<forall>p\<in>set ps. 0 < min_age_days r \<longrightarrow> older_than fs p cut1 = older_than fs p cut2 \<Longrightarrow>
   scan_pattern obs c fs r cut1 ps res seen n = scan_pattern obs c fs r cut2 ps res seen n"
proof (induction ps arbitrary: res seen n)
  case Nil
  show ?case by simp
next
  case (Cons p ps)
  then have e: "scan_entry c fs r cut1 p res seen = scan_entry c fs r cut2 p res seen"
    by (simp add: scan_entry_same_verdict)
  have ih: "\<And>res seen n. scan_pattern obs c fs r cut1 ps res seen n =
      scan_pattern obs c fs r cut2 ps res seen n"
    using Cons by simp
  show ?case unfolding scan_pattern.simps e ih by (rule refl)
qed

lemma scan_patterns_same_verdict:
  "\<forall>pat\<in>set pats. \<forall>p\<in>set (rglob env base pat).
      0 < min_age_days r \<longrightarrow> older_than fs p cut1 = older_than fs p cut2 \<Longrightarrow>
   scan_patterns obs c env fs r cut1 base pats res seen n =
   scan_patterns obs c env fs r cut2 base pats res seen n"
proof (induction pats arbitrary: res seen n)
  case Nil
  show ?case by simp
next
  case (Cons pat pats)
  then have e: "\<And>res seen n. scan_pattern obs c fs r cut1 (rglob env base pat) res seen n =
      scan_pattern obs c fs r cut2 (rglob env base pat) res seen n"
    by (simp add: scan_pattern_same_verdict)
  have ih: "\<And>res seen n. scan_patterns obs c env fs r cut1 base pats res seen n =
      scan_patterns obs c env fs r cut2 base pats res seen n"
    using Cons by simp
  show ?case unfolding scan_patterns.simps e ih by (rule refl)
qed

lemma temp_scan_before:
  "enumerate_rule quiet 0 AppConfig_default (demo_platform temp_listing) temp_files 286400 temp_rule
     = Some (Inr \<lparr>rule = temp_rule, files = [[''tmp'', ''x'', ''a.tmp'']], total_size = 10\<rparr>)"
  by (simp add: enumerate_rule_def resolve_base_def demo_platform_def path_exists_def stat_def
       temp_files_def temp_listing_def temp_rule_def PathRule_default_def AppConfig_default_def
       quiet_wait scan_entry_def is_dir_def is_symlink_def older_than_def file_node_def dir_node_def
       quiet_flags Let_def temp_parse)

lemma temp_scan_after:
  "enumerate_rule quiet 0 AppConfig_default (demo_platform temp_listing) temp_files 286401 temp_rule
     = Some (Inr \<lparr>rule = temp_rule,
          files = [[''tmp'', ''x'', ''a.tmp''], [''tmp'', ''x'', ''b.tmp'']], total_size = 30\<rparr>)"
  by (simp add: enumerate_rule_def resolve_base_def demo_platform_def path_exists_def stat_def
       temp_files_def temp_listing_def temp_rule_def PathRule_default_def AppConfig_default_def
       quiet_wait scan_entry_def is_dir_def is_symlink_def older_than_def file_node_def dir_node_def
       quiet_flags Let_def temp_parse)

text \<open>
  Claim C9, as stated, fails: the cutoff of the age filter moves with the clock, so with
  the file system, the configuration and the rule unchanged, a file whose age passes
  \<open>min_age_days\<close> between two scans is in the second result only. Here \<^verbatim>\<open>b.tmp\<close>,
  modified at second 200000, is exactly one day old at second 286400.
\<close>

theorem enumerate_rule_not_idempotent:
  "enumerate_rule quiet 0 AppConfig_default (demo_platform temp_listing) temp_files 286400 temp_rule
     = Some (Inr \<lparr>rule = temp_rule, files = [[''tmp'', ''x'', ''a.tmp'']], total_size = 10\<rparr>) \<and>
   enumerate_rule quiet 0 AppConfig_default (demo_platform temp_listing) temp_files 286401 temp_rule
     = Some (Inr \<lparr>rule = temp_rule,
          files = [[''tmp'', ''x'', ''a.tmp''], [''tmp'', ''x'', ''b.tmp'']], total_size = 30\<rparr>) \<and>
   enumerate_rule quiet 0 AppConfig_default (demo_platform temp_listing) temp_files 286400 temp_rule
     \<noteq> enumerate_rule quiet 0 AppConfig_default (demo_platform temp_listing) temp_files 286401 temp_rule"
  unfolding temp_scan_before temp_scan_after by simp

text \<open>
  Claim C9, amended. Two runs of \<open>enumerate_rule\<close> on the same file system,
  configuration, rule and stop and pause signals, at the clock readings \<open>now1\<close> and
  \<open>now2\<close>, return the same result when the rule has no age filter, or when no
  candidate's verdict \<open>older_than\<close> differs between the two cutoffs.
\<close>

theorem enumerate_rule_repeatable:
  assumes "min_age_days r \<le> 0 \<or>
     (\<forall>pat\<in>set (patterns r). \<forall>p\<in>set (rglob env (resolve_base env r) pat).
        older_than fs p (now1 - real_of_int (min_age_days r) * 86400) =
        older_than fs p (now2 - real_of_int (min_age_days r) * 86400))"
  shows "enumerate_rule obs n c env fs now1 r = enumerate_rule obs n c env fs now2 r"
proof -
  have "\<forall>pat\<in>set (patterns r). \<forall>p\<in>set (rglob env (resolve_base env r) pat).
      0 < min_age_days r \<longrightarrow>
        older_than fs p (now1 - real_of_int (min_age_days r) * 86400) =
        older_than fs p (now2 - real_of_int (min_age_days r) * 86400)"
    using assms by auto
  from scan_patterns_same_verdict [OF this]
  have e: "\<And>res seen. scan_patterns obs c env fs r (now1 - real_of_int (min_age_days r) * 86400)
      (resolve_base env r) (patterns r) res seen n =
    scan_patterns obs c env fs r (now2 - real_of_int (min_age_days r) * 86400)
      (resolve_base env r) (patterns r) res seen n" .
  show ?thesis unfolding enumerate_rule_def Let_def e by (rule refl)
qed

theorem enumerate_rule_repeatable_witness:
  "enumerate_rule quiet 0 AppConfig_default (demo_platform temp_listing) temp_files 173800 temp_rule
     = enumerate_rule quiet 0 AppConfig_default (demo_platform temp_listing) temp_files 173900 temp_rule \<and>
   enumerate_rule quiet 0 AppConfig_default (demo_platform logs_and_tmps) ten_files 0 logs_rule
     = enumerate_rule quiet 0 AppConfig_default (demo_platform logs_and_tmps) ten_files 86400 logs_rule"
  using enumerate_rule_repeatable [of temp_rule "demo_platform temp_listing" temp_files 173800 173900
      quiet 0 AppConfig_default]
    enumerate_rule_repeatable [of logs_rule "demo_platform logs_and_tmps" ten_files 0 86400
      quiet 0 AppConfig_default]
  by (simp add: temp_rule_def logs_rule_def PathRule_default_def demo_platform_def temp_listing_def
       resolve_base_def temp_parse older_than_def stat_def temp_files_def file_node_def)

subsection \<open>Quarantine\<close>


















subsection \<open>Recycle without a trash facility\<close>






subsection \<open>Adding a schedule entry\<close>










subsection \<open>Firing a schedule entry\<close>






end
